theory Spec2Isabelle
  imports Main "HOL-Library.Word"
begin

section \<open>websockify.py: a WebSocket to TCP relay\<close>

text \<open>
  The module has three coroutines: the two pumps \<open>forward_ws_to_tcp\<close> and
  \<open>forward_tcp_to_ws\<close>, and the session coordinator \<open>websockify\<close>. Each one is
  embedded as a function on an explicit \<open>world\<close>: the state of the two transports, the
  outcomes the event loop will hand to the awaited calls, and the trace of the calls made
  so far. An awaited call that is resolved with a value is \<open>Returns\<close>, one that is
  resolved with an exception is \<open>Raises\<close>, one that is never resolved is \<open>Never\<close>.
\<close>

subsection \<open>Bytes, exceptions, outcomes\<close>

type_synonym byte = "8 word"
type_synonym bytes = "byte list"

text \<open>
  The exception classes the module distinguishes. \<open>OSError\<close> stands for the class and
  its subclasses (connection refused, reset, broken pipe, timeout), \<open>OtherException\<close>
  for every other subclass of \<open>Exception\<close>. \<open>CancelledError\<close> derives from
  \<open>BaseException\<close> only, so \<open>except Exception\<close> does not catch it.
\<close>

datatype exn =
    WebSocketDisconnect
  | IncompleteReadError
  | OSError
  | OtherException
  | CancelledError

fun is_Exception :: "exn \<Rightarrow> bool" where
  "is_Exception CancelledError = False"
| "is_Exception _ = True"

fun is_OSError :: "exn \<Rightarrow> bool" where
  "is_OSError OSError = True"
| "is_OSError _ = False"

datatype 'a awaited = Returns 'a | Raises exn | Never

text \<open>How a coroutine ends: it returns, it raises, or it stays suspended for ever.\<close>

datatype 'a completion = Returned 'a | Raised exn | Pending

text \<open>How the body of a \<open>while True\<close> loop inside \<open>try\<close> is left.\<close>

datatype loop_exit = Break | Exc exn | Stuck

datatype task = WsToTcp | TcpToWs

datatype log_msg =
    ErrorForwardingWsToTcp exn
  | ErrorForwardingTcpToWs exn
  | ClientConnected int "string option"
  | CouldNotConnect int exn
  | ConnectionClosed int

text \<open>
  The calls a coroutine makes on its collaborators, in the order it makes them. A read
  on the TCP stream is recorded with its outcome.
\<close>

datatype action =
    WsAccept "string option"
  | WsReceive
  | WsSend bytes
  | WsClose "nat option"
  | OpenConnection int
  | TcpRead nat "bytes awaited"
  | TcpWrite bytes
  | TcpDrain
  | WriterClose
  | WriterWaitClosed
  | CreateTask task
  | WaitFirstCompleted "task list"
  | TaskCancel task
  | Print log_msg

text \<open>
  What happens on the TCP connection while a read waits, in order: bytes arrive, the
  peer ends the stream, or the read is resolved with an exception.
\<close>

datatype rx_event = Arrive bytes | Eof | Fails exn

text \<open>
  The world of one session. For the WebSocket: the headers of the request, the outcome
  of the accept, and the outcomes of the receives, of the sends and of the closes to
  come, in order. For the TCP connection: the outcome of the connection attempt, the
  buffer of the reader and what is still to happen on the wire, the outcomes of the
  drains to come, the bytes handed to the writer so far, and the flag of
  \<open>is_closing\<close>, which in a run of a pump changes by the pump's own close only.
  For the coordinator: the outcome of the wait for the first task and of the wait for
  the close. Last, the calls made so far.
\<close>

record world =
  ws_headers :: "(string \<times> string) list"
  ws_accept_r :: "unit awaited"
  ws_recv_q :: "bytes awaited list"
  ws_send_q :: "unit awaited list"
  ws_close_q :: "unit awaited list"
  connect_r :: "unit awaited"
  tcp_rx_buf :: bytes
  tcp_rx_q :: "rx_event list"
  tcp_drain_q :: "unit awaited list"
  tcp_tx :: bytes
  tcp_closing :: bool
  wait_r :: "(task list \<times> task list) awaited"
  wait_closed_r :: "unit awaited"
  trace :: "action list"

text \<open>The next outcome of a queue; an exhausted queue means nothing more happens.\<close>

fun pop :: "'a awaited list \<Rightarrow> 'a awaited \<times> 'a awaited list" where
  "pop [] = (Never, [])"
| "pop (x # xs) = (x, xs)"

definition emit :: "action \<Rightarrow> world \<Rightarrow> world" where
  "emit a w = w\<lparr>trace := trace w @ [a]\<rparr>"

definition py_print :: "log_msg \<Rightarrow> world \<Rightarrow> world" where
  "py_print m w = emit (Print m) w"

text \<open>The calls made between two worlds of one run, and the messages among them.\<close>

definition new_actions :: "world \<Rightarrow> world \<Rightarrow> action list" where
  "new_actions w w' = drop (length (trace w)) (trace w')"

fun sent_messages :: "action list \<Rightarrow> bytes list" where
  "sent_messages [] = []"
| "sent_messages (WsSend d # as) = d # sent_messages as"
| "sent_messages (a # as) = sent_messages as"

subsection \<open>Subprotocol negotiation (lines 48 to 55)\<close>

text \<open>
  \<open>str.split(sep)\<close> with a one-character separator: the pieces between the
  separators, empty pieces kept, so the empty string gives one empty piece.
\<close>

fun str_split :: "char \<Rightarrow> string \<Rightarrow> string list" where
  "str_split sep [] = [[]]"
| "str_split sep (c # cs) =
     (if c = sep then [] # str_split sep cs
      else (case str_split sep cs of
              [] \<Rightarrow> [[c]]
            | p # ps \<Rightarrow> (c # p) # ps))"

text \<open>
  \<open>str.isspace\<close> on the code points below 256 (Starlette decodes header values as
  Latin-1): tab to carriage return, the four separators 28 to 31, space, NEL and the
  no-break space.
\<close>

definition py_isspace :: "char \<Rightarrow> bool" where
  "py_isspace c =
     (let n = (of_char c :: nat)
      in (9 \<le> n \<and> n \<le> 13) \<or> (28 \<le> n \<and> n \<le> 32) \<or> n = 133 \<or> n = 160)"

definition str_strip :: "string \<Rightarrow> string" where
  "str_strip s = rev (dropWhile py_isspace (rev (dropWhile py_isspace s)))"

text \<open>\<open>Headers.get(key, default)\<close>: the first value stored under the key.\<close>

definition headers_get :: "(string \<times> string) list \<Rightarrow> string \<Rightarrow> string \<Rightarrow> string" where
  "headers_get hs key dflt = (case map_of hs key of None \<Rightarrow> dflt | Some v \<Rightarrow> v)"

text \<open>The \<open>for proto in client_subprotocols\<close> loop with its \<open>break\<close>.\<close>

fun select_subprotocol :: "string list \<Rightarrow> string option" where
  "select_subprotocol [] = None"
| "select_subprotocol (proto # rest) =
     (let proto' = str_strip proto
      in if proto' = ''binary'' then Some ''binary'' else select_subprotocol rest)"

definition negotiate :: "string \<Rightarrow> string option" where
  "negotiate header = select_subprotocol (str_split CHR '','' header)"

subsection \<open>The WebSocket and the TCP stream\<close>

text \<open>
  \<open>WebSocket.accept\<close>, \<open>receive_bytes\<close>, \<open>send_bytes\<close> and \<open>close\<close> are awaited:
  each call is recorded and resolved with the outcome the world holds for it.
\<close>

definition ws_accept :: "string option \<Rightarrow> world \<Rightarrow> unit awaited \<times> world" where
  "ws_accept subprotocol w = (ws_accept_r w, emit (WsAccept subprotocol) w)"

definition receive_bytes :: "world \<Rightarrow> bytes awaited \<times> world" where
  "receive_bytes w =
     (case pop (ws_recv_q w) of (r, q) \<Rightarrow> (r, emit WsReceive (w\<lparr>ws_recv_q := q\<rparr>)))"

definition send_bytes :: "bytes \<Rightarrow> world \<Rightarrow> unit awaited \<times> world" where
  "send_bytes data w =
     (case pop (ws_send_q w) of (r, q) \<Rightarrow> (r, emit (WsSend data) (w\<lparr>ws_send_q := q\<rparr>)))"

definition ws_close :: "nat option \<Rightarrow> world \<Rightarrow> unit awaited \<times> world" where
  "ws_close code w =
     (case pop (ws_close_q w) of (r, q) \<Rightarrow> (r, emit (WsClose code) (w\<lparr>ws_close_q := q\<rparr>)))"

text \<open>\<open>asyncio.open_connection("localhost", port)\<close>.\<close>

definition open_connection :: "int \<Rightarrow> world \<Rightarrow> unit awaited \<times> world" where
  "open_connection port w = (connect_r w, emit (OpenConnection port) w)"

text \<open>
  \<open>StreamWriter.write\<close> is not awaited and does not raise on bytes: it hands the data
  to the transport. \<open>drain\<close> is awaited. \<open>is_closing\<close> reads the transport's flag and
  \<open>close\<close> sets it: \<open>close\<close> closes the stream and the underlying socket, both
  directions, so that the reader is fed end of file.
\<close>

definition writer_write :: "bytes \<Rightarrow> world \<Rightarrow> world" where
  "writer_write data w = emit (TcpWrite data) (w\<lparr>tcp_tx := tcp_tx w @ data\<rparr>)"

definition writer_drain :: "world \<Rightarrow> unit awaited \<times> world" where
  "writer_drain w =
     (case pop (tcp_drain_q w) of (r, q) \<Rightarrow> (r, emit TcpDrain (w\<lparr>tcp_drain_q := q\<rparr>)))"

definition writer_is_closing :: "world \<Rightarrow> bool" where
  "writer_is_closing w = tcp_closing w"

definition writer_close :: "world \<Rightarrow> world" where
  "writer_close w = emit WriterClose (w\<lparr>tcp_closing := True\<rparr>)"

definition writer_wait_closed :: "world \<Rightarrow> unit awaited \<times> world" where
  "writer_wait_closed w = (wait_closed_r w, emit WriterWaitClosed w)"

text \<open>
  \<open>StreamReader.read(n)\<close>: with bytes in the buffer it returns at most \<open>n\<close> of them at
  once; with an empty buffer it waits for the next delivery (an empty delivery wakes
  nobody), and returns the empty bytes at end of file, from then on at every call. After
  the close of the transport nothing more is received: the reader returns what is in
  its buffer and then the empty bytes. \<open>rx_next\<close> is the wait on an empty buffer:
  the outcome, the bytes left in the buffer, the deliveries still to come.
\<close>

fun rx_next :: "nat \<Rightarrow> rx_event list \<Rightarrow> bytes awaited \<times> bytes \<times> rx_event list" where
  "rx_next n [] = (Never, [], [])"
| "rx_next n (Arrive d # q) =
     (if d = [] then rx_next n q else (Returns (take n d), drop n d, q))"
| "rx_next n (Eof # q) = (Returns [], [], Eof # q)"
| "rx_next n (Fails e # q) = (Raises e, [], q)"

definition reader_read :: "nat \<Rightarrow> world \<Rightarrow> bytes awaited \<times> world" where
  "reader_read n w =
     (case (if n = 0 then (Returns [], tcp_rx_buf w, tcp_rx_q w)
            else if tcp_rx_buf w \<noteq> [] then
              (Returns (take n (tcp_rx_buf w)), drop n (tcp_rx_buf w), tcp_rx_q w)
            else if tcp_closing w then (Returns [], [], tcp_rx_q w)
            else rx_next n (tcp_rx_q w)) of
        (r, buf, q) \<Rightarrow> (r, emit (TcpRead n r) (w\<lparr>tcp_rx_buf := buf, tcp_rx_q := q\<rparr>)))"

subsection \<open>The pump from the WebSocket to TCP (lines 7 to 24)\<close>

lemma pop_shorter: "pop q = (Returns v, q') \<Longrightarrow> length q' < length q"
  by (cases q) auto

lemma receive_bytes_shorter:
  "receive_bytes w = (Returns v, w') \<Longrightarrow> length (ws_recv_q w') < length (ws_recv_q w)"
  by (auto simp: receive_bytes_def emit_def split: prod.splits dest: pop_shorter)

lemma writer_write_recv_q: "ws_recv_q (writer_write d w) = ws_recv_q w"
  by (simp add: writer_write_def emit_def)

lemma writer_drain_recv_q: "ws_recv_q (snd (writer_drain w)) = ws_recv_q w"
  by (simp add: writer_drain_def emit_def split: prod.splits)

function forward_ws_to_tcp_loop :: "world \<Rightarrow> loop_exit \<times> world" where
  "forward_ws_to_tcp_loop w =
     (case receive_bytes w of
        (Never, w1) \<Rightarrow> (Stuck, w1)
      | (Raises e, w1) \<Rightarrow> (Exc e, w1)
      | (Returns data, w1) \<Rightarrow>
          if data = [] then (Break, w1)
          else (case writer_drain (writer_write data w1) of
                  (Never, w2) \<Rightarrow> (Stuck, w2)
                | (Raises e, w2) \<Rightarrow> (Exc e, w2)
                | (Returns u, w2) \<Rightarrow> forward_ws_to_tcp_loop w2))"
  by pat_completeness auto
termination
proof (relation "measure (\<lambda>w. length (ws_recv_q w))")
  show "wf (measure (\<lambda>w. length (ws_recv_q w)))" by simp
next
  fix w :: world and x w1 data x2 w2 u
  assume r: "(x, w1) = receive_bytes w" "x = Returns data"
    and d: "(x2, w2) = writer_drain (writer_write data w1)"
  from r have "length (ws_recv_q w1) < length (ws_recv_q w)"
    using receive_bytes_shorter [of w data w1] by simp
  moreover from d have "ws_recv_q w2 = ws_recv_q w1"
    using writer_drain_recv_q [of "writer_write data w1"] writer_write_recv_q [of data w1]
    by (metis snd_conv)
  ultimately show "(w2, w) \<in> measure (\<lambda>w. length (ws_recv_q w))" by simp
qed

declare forward_ws_to_tcp_loop.simps [simp del]

text \<open>
  The \<open>try\<close> statement around the loop: a disconnect or an incomplete read is passed
  over, any other \<open>Exception\<close> is printed, anything else goes on to the caller; the
  \<open>finally\<close> clause closes the writer unless it is closing already. A loop that stays
  suspended never reaches the handlers.
\<close>

definition forward_ws_to_tcp :: "world \<Rightarrow> unit completion \<times> world" where
  "forward_ws_to_tcp w =
     (case forward_ws_to_tcp_loop w of
        (Stuck, w1) \<Rightarrow> (Pending, w1)
      | (ex, w1) \<Rightarrow>
          (case (case ex of
                   Exc e \<Rightarrow>
                     if e = WebSocketDisconnect \<or> e = IncompleteReadError then (Returned (), w1)
                     else if is_Exception e then
                       (Returned (), py_print (ErrorForwardingWsToTcp e) w1)
                     else (Raised e, w1)
                 | _ \<Rightarrow> (Returned (), w1)) of
             (r, w2) \<Rightarrow>
               (r, if \<not> writer_is_closing w2 then writer_close w2 else w2)))"

subsection \<open>The pump from TCP to the WebSocket (lines 27 to 44)\<close>

lemma reader_read_send_q: "ws_send_q (snd (reader_read n w)) = ws_send_q w"
  by (simp add: reader_read_def emit_def Let_def split: prod.splits)

lemma send_bytes_shorter:
  "send_bytes d w = (Returns v, w') \<Longrightarrow> length (ws_send_q w') < length (ws_send_q w)"
  by (auto simp: send_bytes_def emit_def split: prod.splits dest: pop_shorter)

function forward_tcp_to_ws_loop :: "world \<Rightarrow> loop_exit \<times> world" where
  "forward_tcp_to_ws_loop w =
     (case reader_read 4096 w of
        (Never, w1) \<Rightarrow> (Stuck, w1)
      | (Raises e, w1) \<Rightarrow> (Exc e, w1)
      | (Returns data, w1) \<Rightarrow>
          if data = [] then (Break, w1)
          else (case send_bytes data w1 of
                  (Never, w2) \<Rightarrow> (Stuck, w2)
                | (Raises e, w2) \<Rightarrow> (Exc e, w2)
                | (Returns u, w2) \<Rightarrow> forward_tcp_to_ws_loop w2))"
  by pat_completeness auto
termination
proof (relation "measure (\<lambda>w. length (ws_send_q w))")
  show "wf (measure (\<lambda>w. length (ws_send_q w)))" by simp
next
  fix w :: world and x w1 data x2 w2 u
  assume r: "(x, w1) = reader_read 4096 w"
    and d: "(x2, w2) = send_bytes data w1" "x2 = Returns u"
  from d have "length (ws_send_q w2) < length (ws_send_q w1)"
    using send_bytes_shorter [of data w1 u w2] by simp
  moreover from r have "ws_send_q w1 = ws_send_q w"
    using reader_read_send_q [of 4096 w] by (metis snd_conv)
  ultimately show "(w2, w) \<in> measure (\<lambda>w. length (ws_send_q w))" by simp
qed

declare forward_tcp_to_ws_loop.simps [simp del]

text \<open>
  The \<open>try\<close> statement: every \<open>Exception\<close> of the loop is printed; the \<open>finally\<close>
  clause awaits \<open>websocket.close()\<close> and passes over an \<open>Exception\<close> it raises. An
  exception that is not an \<open>Exception\<close> leaves the coroutine, the one of the
  \<open>finally\<close> clause before the one of the loop.
\<close>

definition forward_tcp_to_ws :: "world \<Rightarrow> unit completion \<times> world" where
  "forward_tcp_to_ws w =
     (case forward_tcp_to_ws_loop w of
        (Stuck, w1) \<Rightarrow> (Pending, w1)
      | (ex, w1) \<Rightarrow>
          (case (case ex of
                   Exc e \<Rightarrow>
                     if is_Exception e then
                       (Returned (), py_print (ErrorForwardingTcpToWs e) w1)
                     else (Raised e, w1)
                 | _ \<Rightarrow> (Returned (), w1)) of
             (r, w2) \<Rightarrow>
               (case ws_close None w2 of
                  (Never, w3) \<Rightarrow> (Pending, w3)
                | (Returns u, w3) \<Rightarrow> (r, w3)
                | (Raises e, w3) \<Rightarrow> if is_Exception e then (r, w3) else (Raised e, w3))))"

subsection \<open>The session coordinator (lines 47 to 90)\<close>

text \<open>
  \<open>asyncio.create_task\<close> schedules a pump as a task of its own, \<open>asyncio.wait\<close>
  with \<open>FIRST_COMPLETED\<close> is awaited and resolved by the event loop with the tasks that
  are done and those that are pending, \<open>Task.cancel\<close> requests a cancellation and does
  not wait. What a pump does while the coordinator is suspended is the pump's own
  function above; the coordinator sees the pumps through these three calls only.
\<close>

definition create_task :: "task \<Rightarrow> world \<Rightarrow> world" where
  "create_task t w = emit (CreateTask t) w"

definition asyncio_wait :: "task list \<Rightarrow> world \<Rightarrow> (task list \<times> task list) awaited \<times> world" where
  "asyncio_wait ts w = (wait_r w, emit (WaitFirstCompleted ts) w)"

fun cancel_all :: "task list \<Rightarrow> world \<Rightarrow> world" where
  "cancel_all [] w = w"
| "cancel_all (t # ts) w = cancel_all ts (emit (TaskCancel t) w)"

text \<open>Lines 71 to 90: the two tasks, the wait for the first, the cancellation, the close.\<close>

definition websockify_forwarding :: "int \<Rightarrow> world \<Rightarrow> unit completion \<times> world" where
  "websockify_forwarding port w =
     (case asyncio_wait [WsToTcp, TcpToWs] (create_task TcpToWs (create_task WsToTcp w)) of
        (Never, w1) \<Rightarrow> (Pending, w1)
      | (Raises e, w1) \<Rightarrow> (Raised e, w1)
      | (Returns (done, pending), w1) \<Rightarrow>
          (case writer_wait_closed (cancel_all pending w1) of
             (Never, w2) \<Rightarrow> (Pending, w2)
           | (Returns u, w2) \<Rightarrow> (Returned (), py_print (ConnectionClosed port) w2)
           | (Raises e, w2) \<Rightarrow>
               if is_Exception e then (Returned (), py_print (ConnectionClosed port) w2)
               else (Raised e, w2)))"

definition websockify :: "int \<Rightarrow> world \<Rightarrow> unit completion \<times> world" where
  "websockify port w =
     (let selected_subprotocol =
            negotiate (headers_get (ws_headers w) ''sec-websocket-protocol'' [])
      in case ws_accept selected_subprotocol w of
           (Never, w1) \<Rightarrow> (Pending, w1)
         | (Raises e, w1) \<Rightarrow> (Raised e, w1)
         | (Returns u, w1) \<Rightarrow>
             (case open_connection port
                     (py_print (ClientConnected port selected_subprotocol) w1) of
                (Never, w2) \<Rightarrow> (Pending, w2)
              | (Raises e, w2) \<Rightarrow>
                  if is_OSError e then
                    (case ws_close (Some 1011) (py_print (CouldNotConnect port e) w2) of
                       (Never, w3) \<Rightarrow> (Pending, w3)
                     | (Raises e', w3) \<Rightarrow> (Raised e', w3)
                     | (Returns u', w3) \<Rightarrow> (Returned (), w3))
                  else (Raised e, w2)
              | (Returns u', w2) \<Rightarrow> websockify_forwarding port w2))"

subsection \<open>Worlds and streams to state the properties with\<close>

text \<open>
  A world in which nothing has happened yet: the accept and the connection succeed and
  nothing else is going to happen. The examples below fill in the outcomes they need.
\<close>

definition idle_world :: world where
  "idle_world =
     \<lparr>ws_headers = [], ws_accept_r = Returns (), ws_recv_q = [], ws_send_q = [],
      ws_close_q = [], connect_r = Returns (), tcp_rx_buf = [], tcp_rx_q = [],
      tcp_drain_q = [], tcp_tx = [], tcp_closing = False, wait_r = Never,
      wait_closed_r = Never, trace = []\<rparr>"

text \<open>\<open>sep.join(pieces)\<close>, the inverse of \<open>str_split\<close>.\<close>

fun str_join :: "char \<Rightarrow> string list \<Rightarrow> string" where
  "str_join sep [] = []"
| "str_join sep [p] = p"
| "str_join sep (p # q # ps) = p @ sep # str_join sep (q # ps)"

text \<open>
  The bytes the reader can still return: its buffer, and unless the transport is
  closing, what arrives before the end of the stream. A read that is resolved with an
  exception takes no byte from the stream.
\<close>

fun rx_bytes :: "rx_event list \<Rightarrow> bytes" where
  "rx_bytes [] = []"
| "rx_bytes (Arrive d # q) = d @ rx_bytes q"
| "rx_bytes (Eof # q) = []"
| "rx_bytes (Fails e # q) = rx_bytes q"

definition tcp_stream :: "world \<Rightarrow> bytes" where
  "tcp_stream w = tcp_rx_buf w @ (if tcp_closing w then [] else rx_bytes (tcp_rx_q w))"

text \<open>The non-empty chunks the reads among some calls have returned, in order.\<close>

fun chunks_read :: "action list \<Rightarrow> bytes list" where
  "chunks_read [] = []"
| "chunks_read (TcpRead n (Returns d) # as) =
     (if d = [] then chunks_read as else d # chunks_read as)"
| "chunks_read (a # as) = chunks_read as"

text \<open>The calls the loop of the pump from TCP makes: reads of 4096 and non-empty sends.\<close>

fun tcp_act_ok :: "action \<Rightarrow> bool" where
  "tcp_act_ok (TcpRead n r) =
     (n = 4096 \<and> (case r of Returns d \<Rightarrow> length d \<le> 4096 | _ \<Rightarrow> True))"
| "tcp_act_ok (WsSend d) = (d \<noteq> [])"
| "tcp_act_ok _ = False"

definition tcp_to_ws_actions :: "world \<Rightarrow> action list" where
  "tcp_to_ws_actions w = new_actions w (snd (forward_tcp_to_ws w))"



text \<open>
  The invariant of the loop, as a predicate of the world \<open>w\<close> it starts in, the way
  \<open>ex\<close> it is left, the world \<open>w'\<close> it is left in and the calls \<open>acts\<close> it has made.
\<close>

definition tcp_loop_run :: "world \<Rightarrow> loop_exit \<Rightarrow> world \<Rightarrow> action list \<Rightarrow> bool" where
  "tcp_loop_run w ex w' acts \<longleftrightarrow>
     trace w' = trace w @ acts
     \<and> list_all tcp_act_ok acts
     \<and> chunks_read acts = sent_messages acts
     \<and> concat (sent_messages acts) @ tcp_stream w' = tcp_stream w
     \<and> (ex = Break \<longleftrightarrow> TcpRead 4096 (Returns []) \<in> set acts)
     \<and> (ex = Break \<longrightarrow> tcp_stream w' = [])
     \<and> (ex = Break \<longrightarrow> acts \<noteq> [] \<and> last acts = TcpRead 4096 (Returns []))
     \<and> ws_close_q w' = ws_close_q w \<and> tcp_closing w' = tcp_closing w \<and> tcp_tx w' = tcp_tx w"


section \<open>Properties\<close>

subsection \<open>Subprotocol negotiation\<close>

lemma select_subprotocol_iff:
  "select_subprotocol ps =
     (if ''binary'' \<in> set (map str_strip ps) then Some ''binary'' else None)"
  by (induction ps) (auto simp: Let_def)

lemma str_split_nonempty: "str_split sep s \<noteq> []"
  by (induction s) (auto split: list.splits)

lemma str_split_no_sep: "p \<in> set (str_split sep s) \<Longrightarrow> sep \<notin> set p"
  by (induction s arbitrary: p) (auto split: list.splits if_splits)

lemma str_join_Cons: "str_join sep ((c # p) # ps) = c # str_join sep (p # ps)"
  by (cases ps) auto

lemma str_join_split: "str_join sep (str_split sep s) = s"
proof (induction s)
  case Nil
  then show ?case by simp
next
  case (Cons c cs)
  obtain p ps where ps: "str_split sep cs = p # ps"
    using str_split_nonempty [of sep cs] by (cases "str_split sep cs") auto
  with Cons show ?case by (auto simp: str_join_Cons)
qed

lemma trace_cancel_all: "trace (cancel_all ts w) = trace w @ map TaskCancel ts"
  by (induction ts arbitrary: w) (auto simp: emit_def)

lemma websockify_forwarding_trace:
  "\<exists>rest. trace (snd (websockify_forwarding port w)) = trace w @ rest"
  by (auto simp: websockify_forwarding_def asyncio_wait_def create_task_def emit_def
      writer_wait_closed_def py_print_def trace_cancel_all
      split: prod.splits awaited.splits)

lemma websockify_accept_first:
  "\<exists>rest. trace (snd (websockify port w)) =
     trace w @ WsAccept (negotiate (headers_get (ws_headers w) ''sec-websocket-protocol'' [])) # rest"
proof -
  let ?sel = "negotiate (headers_get (ws_headers w) ''sec-websocket-protocol'' [])"
  let ?w1 = "emit (WsAccept ?sel) w"
  let ?w2 = "emit (OpenConnection port) (py_print (ClientConnected port ?sel) ?w1)"
  show ?thesis
  proof (cases "ws_accept_r w")
    case Never
    then show ?thesis by (simp add: websockify_def ws_accept_def emit_def Let_def)
  next
    case (Raises e)
    then show ?thesis by (simp add: websockify_def ws_accept_def emit_def Let_def)
  next
    case accepted: (Returns u)
    show ?thesis
    proof (cases "connect_r w")
      case Never
      with accepted show ?thesis
        by (simp add: websockify_def ws_accept_def open_connection_def py_print_def
            emit_def Let_def)
    next
      case (Raises e)
      with accepted show ?thesis
        by (simp add: websockify_def ws_accept_def open_connection_def py_print_def
            emit_def ws_close_def Let_def split: prod.splits awaited.splits)
    next
      case (Returns u')
      obtain rest where "trace (snd (websockify_forwarding port ?w2)) = trace ?w2 @ rest"
        using websockify_forwarding_trace by blast
      with Returns accepted show ?thesis
        by (simp add: websockify_def ws_accept_def open_connection_def py_print_def
            emit_def Let_def)
    qed
  qed
qed

text \<open>
  Claim C5. For every value of the \<open>Sec-WebSocket-Protocol\<close> header, the negotiation
  splits the value at the commas, strips the white space around each candidate, and
  selects \<open>binary\<close> exactly when one of the stripped candidates is \<open>binary\<close>, and
  nothing otherwise. The value \<open>json, binary\<close> selects \<open>binary\<close>, the value
  \<open>json\<close> selects nothing, the empty value selects nothing. What has been selected for
  the header of the request (the empty value when the header is absent) is the
  subprotocol of the accept call, the first call the coordinator makes.
\<close>

theorem negotiate_selects_binary:
  "negotiate header =
     (if ''binary'' \<in> set (map str_strip (str_split CHR '','' header))
      then Some ''binary'' else None)
   \<and> negotiate ''json, binary'' = Some ''binary''
   \<and> negotiate ''json'' = None
   \<and> negotiate [] = None
   \<and> (\<exists>rest. trace (snd (websockify port w)) =
         trace w
         @ WsAccept (negotiate (headers_get (ws_headers w) ''sec-websocket-protocol'' []))
         # rest)"
proof -
  have "negotiate ''json, binary'' = Some ''binary''"
    by (simp add: negotiate_def str_strip_def py_isspace_def)
  moreover have "negotiate ''json'' = None"
    by (simp add: negotiate_def str_strip_def py_isspace_def)
  moreover have "negotiate [] = None"
    by (simp add: negotiate_def str_strip_def)
  ultimately show ?thesis
    using websockify_accept_first [of port w]
    by (simp add: negotiate_def select_subprotocol_iff)
qed

subsection \<open>The pump from the WebSocket to TCP\<close>

lemma ws_loop_step_msg:
  assumes "ws_recv_q w = Returns m # q" "m \<noteq> []" "tcp_drain_q w = Returns () # dq"
  shows "forward_ws_to_tcp_loop w =
           forward_ws_to_tcp_loop
             (w\<lparr>ws_recv_q := q, tcp_drain_q := dq, tcp_tx := tcp_tx w @ m,
                trace := trace w @ [WsReceive, TcpWrite m, TcpDrain]\<rparr>)"
proof -
  have "forward_ws_to_tcp_loop w =
          forward_ws_to_tcp_loop (snd (writer_drain (writer_write m (snd (receive_bytes w)))))"
    using assms
    by (subst forward_ws_to_tcp_loop.simps)
       (simp add: receive_bytes_def writer_write_def writer_drain_def emit_def)
  moreover have "snd (writer_drain (writer_write m (snd (receive_bytes w)))) =
      w\<lparr>ws_recv_q := q, tcp_drain_q := dq, tcp_tx := tcp_tx w @ m,
        trace := trace w @ [WsReceive, TcpWrite m, TcpDrain]\<rparr>"
    using assms
    by (intro world.equality)
       (simp_all add: receive_bytes_def writer_write_def writer_drain_def emit_def)
  ultimately show ?thesis by simp
qed

lemma ws_loop_msgs:
  assumes "ws_recv_q w = map Returns msgs @ q" "[] \<notin> set msgs"
    and "tcp_drain_q w = replicate (length msgs) (Returns ()) @ dq"
  shows "forward_ws_to_tcp_loop w =
           forward_ws_to_tcp_loop
             (w\<lparr>ws_recv_q := q, tcp_drain_q := dq, tcp_tx := tcp_tx w @ concat msgs,
                trace := trace w @ concat (map (\<lambda>m. [WsReceive, TcpWrite m, TcpDrain]) msgs)\<rparr>)"
  using assms
proof (induction msgs arbitrary: w)
  case Nil
  then have "w\<lparr>ws_recv_q := q, tcp_drain_q := dq\<rparr> = w" by (cases w) auto
  then show ?case by simp
next
  case (Cons m ms)
  let ?w1 = "w\<lparr>ws_recv_q := map Returns ms @ q,
                tcp_drain_q := replicate (length ms) (Returns ()) @ dq,
                tcp_tx := tcp_tx w @ m,
                trace := trace w @ [WsReceive, TcpWrite m, TcpDrain]\<rparr>"
  have "forward_ws_to_tcp_loop w = forward_ws_to_tcp_loop ?w1"
    using Cons.prems by (intro ws_loop_step_msg) auto
  also have "\<dots> = forward_ws_to_tcp_loop
             (?w1\<lparr>ws_recv_q := q, tcp_drain_q := dq, tcp_tx := tcp_tx ?w1 @ concat ms,
                trace := trace ?w1 @ concat (map (\<lambda>m. [WsReceive, TcpWrite m, TcpDrain]) ms)\<rparr>)"
    using Cons.prems by (intro Cons.IH) auto
  also have "?w1\<lparr>ws_recv_q := q, tcp_drain_q := dq, tcp_tx := tcp_tx ?w1 @ concat ms,
                trace := trace ?w1 @ concat (map (\<lambda>m. [WsReceive, TcpWrite m, TcpDrain]) ms)\<rparr> =
      w\<lparr>ws_recv_q := q, tcp_drain_q := dq, tcp_tx := tcp_tx w @ concat (m # ms),
        trace := trace w @ concat (map (\<lambda>m. [WsReceive, TcpWrite m, TcpDrain]) (m # ms))\<rparr>"
    by (intro world.equality) simp_all
  finally show ?case .
qed

lemma ws_loop_stop:
  assumes "ws_recv_q w = Raises e # q"
  shows "forward_ws_to_tcp_loop w =
           (Exc e, w\<lparr>ws_recv_q := q, trace := trace w @ [WsReceive]\<rparr>)"
  using assms
  by (subst forward_ws_to_tcp_loop.simps) (simp add: receive_bytes_def emit_def)

lemma ws_loop_empty:
  assumes "ws_recv_q w = Returns [] # q"
  shows "forward_ws_to_tcp_loop w =
           (Break, w\<lparr>ws_recv_q := q, trace := trace w @ [WsReceive]\<rparr>)"
  using assms
  by (subst forward_ws_to_tcp_loop.simps) (simp add: receive_bytes_def emit_def)

text \<open>
  Claim C1. When the pump receives the non-empty messages \<open>msgs\<close> and then the clean
  close of the WebSocket, every drain being acknowledged (the pump would not receive the
  next message otherwise), it returns, the bytes it has handed to the TCP writer are the
  concatenation of \<open>msgs\<close> in the order received, and its calls are, for each message
  in turn, the receive, the write of the whole message and the drain, before the last
  receive and the close of the writer.
\<close>

theorem ws_to_tcp_forwards_in_order:
  assumes "ws_recv_q w = map Returns msgs @ Raises WebSocketDisconnect # rest"
    and "\<forall>m \<in> set msgs. m \<noteq> []"
    and "tcp_drain_q w = replicate (length msgs) (Returns ()) @ drains"
  shows "fst (forward_ws_to_tcp w) = Returned ()
     \<and> tcp_tx (snd (forward_ws_to_tcp w)) = tcp_tx w @ concat msgs
     \<and> new_actions w (snd (forward_ws_to_tcp w)) =
         concat (map (\<lambda>m. [WsReceive, TcpWrite m, TcpDrain]) msgs)
         @ [WsReceive] @ (if tcp_closing w then [] else [WriterClose])"
proof -
  let ?w1 = "w\<lparr>ws_recv_q := Raises WebSocketDisconnect # rest, tcp_drain_q := drains,
                tcp_tx := tcp_tx w @ concat msgs,
                trace := trace w @ concat (map (\<lambda>m. [WsReceive, TcpWrite m, TcpDrain]) msgs)\<rparr>"
  have "[] \<notin> set msgs" using assms(2) by auto
  then have "forward_ws_to_tcp_loop w = forward_ws_to_tcp_loop ?w1"
    using assms(1,3) by (intro ws_loop_msgs) auto
  also have "\<dots> = (Exc WebSocketDisconnect,
                    ?w1\<lparr>ws_recv_q := rest, trace := trace ?w1 @ [WsReceive]\<rparr>)"
    by (intro ws_loop_stop) simp
  finally show ?thesis
    by (simp add: forward_ws_to_tcp_def writer_is_closing_def writer_close_def emit_def
        new_actions_def)
qed

text \<open>An example: two messages, of two bytes and of one byte, and then the close.\<close>

theorem ws_to_tcp_forwards_in_order_witness:
  "fst (forward_ws_to_tcp
          (idle_world\<lparr>ws_recv_q := [Returns [1, 2], Returns [3], Raises WebSocketDisconnect],
                       tcp_drain_q := [Returns (), Returns ()]\<rparr>)) = Returned ()
   \<and> tcp_tx (snd (forward_ws_to_tcp
          (idle_world\<lparr>ws_recv_q := [Returns [1, 2], Returns [3], Raises WebSocketDisconnect],
                       tcp_drain_q := [Returns (), Returns ()]\<rparr>))) = [1, 2, 3]
   \<and> new_actions
        (idle_world\<lparr>ws_recv_q := [Returns [1, 2], Returns [3], Raises WebSocketDisconnect],
                     tcp_drain_q := [Returns (), Returns ()]\<rparr>)
        (snd (forward_ws_to_tcp
          (idle_world\<lparr>ws_recv_q := [Returns [1, 2], Returns [3], Raises WebSocketDisconnect],
                       tcp_drain_q := [Returns (), Returns ()]\<rparr>))) =
       [WsReceive, TcpWrite [1, 2], TcpDrain, WsReceive, TcpWrite [3], TcpDrain, WsReceive,
        WriterClose]"
  using ws_to_tcp_forwards_in_order
    [of "idle_world\<lparr>ws_recv_q := [Returns [1, 2], Returns [3], Raises WebSocketDisconnect],
                       tcp_drain_q := [Returns (), Returns ()]\<rparr>"
        "[[1, 2], [3]]" "[]" "[]"]
  by (simp add: idle_world_def)

text \<open>
  Claim C8. A pump whose next message is the empty bytes ends exactly as a pump whose
  next event is the clean close of the WebSocket: the same result and the same world.
  It returns, it hands no byte to the TCP writer, and after the receive its only call is
  the close of the writer (when the writer is not closing already).
\<close>

theorem empty_message_like_clean_close:
  "forward_ws_to_tcp (w\<lparr>ws_recv_q := Returns [] # q\<rparr>) =
     forward_ws_to_tcp (w\<lparr>ws_recv_q := Raises WebSocketDisconnect # q\<rparr>)
   \<and> fst (forward_ws_to_tcp (w\<lparr>ws_recv_q := Returns [] # q\<rparr>)) = Returned ()
   \<and> tcp_tx (snd (forward_ws_to_tcp (w\<lparr>ws_recv_q := Returns [] # q\<rparr>))) = tcp_tx w
   \<and> new_actions w (snd (forward_ws_to_tcp (w\<lparr>ws_recv_q := Returns [] # q\<rparr>))) =
       WsReceive # (if tcp_closing w then [] else [WriterClose])"
proof -
  have "forward_ws_to_tcp_loop (w\<lparr>ws_recv_q := Returns [] # q\<rparr>) =
          (Break, w\<lparr>ws_recv_q := q, trace := trace w @ [WsReceive]\<rparr>)"
    using ws_loop_empty [of "w\<lparr>ws_recv_q := Returns [] # q\<rparr>" q] by simp
  moreover have "forward_ws_to_tcp_loop (w\<lparr>ws_recv_q := Raises WebSocketDisconnect # q\<rparr>) =
          (Exc WebSocketDisconnect, w\<lparr>ws_recv_q := q, trace := trace w @ [WsReceive]\<rparr>)"
    using ws_loop_stop [of "w\<lparr>ws_recv_q := Raises WebSocketDisconnect # q\<rparr>" _ q] by simp
  ultimately show ?thesis
    by (simp add: forward_ws_to_tcp_def writer_is_closing_def writer_close_def emit_def
        new_actions_def)
qed

subsection \<open>The pump from TCP to the WebSocket\<close>

lemma rx_next_facts:
  assumes "rx_next n q = (r, buf, q')" "0 < n"
  shows "case r of
           Returns d \<Rightarrow> length d \<le> n \<and> d @ buf @ rx_bytes q' = rx_bytes q
                         \<and> (d = [] \<longrightarrow> buf = [] \<and> rx_bytes q' = [])
         | _ \<Rightarrow> buf = [] \<and> rx_bytes q' = rx_bytes q"
  using assms
proof (induction n q rule: rx_next.induct)
  case (2 n d q)
  then show ?case by (cases "d = []") (auto split: awaited.splits)
qed (auto split: awaited.splits)

lemma reader_read_trace:
  "reader_read n w = (r, w1) \<Longrightarrow> trace w1 = trace w @ [TcpRead n r]"
  by (auto simp: reader_read_def emit_def split: if_splits prod.splits)

lemma reader_read_frame:
  "reader_read n w = (r, w1) \<Longrightarrow>
     ws_close_q w1 = ws_close_q w \<and> tcp_closing w1 = tcp_closing w \<and> tcp_tx w1 = tcp_tx w"
  by (auto simp: reader_read_def emit_def split: if_splits prod.splits)

lemma reader_read_stream:
  assumes "reader_read n w = (r, w1)" "0 < n"
  shows "case r of
           Returns d \<Rightarrow> length d \<le> n \<and> d @ tcp_stream w1 = tcp_stream w
                         \<and> (d = [] \<longrightarrow> tcp_stream w1 = [])
         | _ \<Rightarrow> tcp_stream w1 = tcp_stream w"
proof (cases "tcp_rx_buf w \<noteq> [] \<or> tcp_closing w")
  case True
  with assms show ?thesis
    by (auto simp: reader_read_def emit_def tcp_stream_def split: if_splits)
next
  case False
  obtain r' buf q' where nx: "rx_next n (tcp_rx_q w) = (r', buf, q')"
    by (cases "rx_next n (tcp_rx_q w)") auto
  with False assms have eq: "r = r'" "tcp_rx_buf w1 = buf" "tcp_rx_q w1 = q'"
      "tcp_closing w1 = tcp_closing w"
    by (auto simp: reader_read_def emit_def)
  from rx_next_facts [OF nx assms(2)] False eq show ?thesis
    by (auto simp: tcp_stream_def split: awaited.splits)
qed

lemma send_bytes_trace:
  "send_bytes d w = (s, w2) \<Longrightarrow> trace w2 = trace w @ [WsSend d]"
  by (auto simp: send_bytes_def emit_def split: prod.splits)

lemma send_bytes_frame:
  "send_bytes d w = (s, w2) \<Longrightarrow>
     ws_close_q w2 = ws_close_q w \<and> tcp_closing w2 = tcp_closing w \<and> tcp_tx w2 = tcp_tx w
     \<and> tcp_stream w2 = tcp_stream w"
  by (auto simp: send_bytes_def emit_def tcp_stream_def split: prod.splits)

lemma tcp_loop_run_step:
  assumes "tcp_loop_run w2 ex w' acts"
    and "trace w2 = trace w @ [TcpRead 4096 (Returns d), WsSend d]"
    and "d \<noteq> []" "length d \<le> 4096" "d @ tcp_stream w2 = tcp_stream w"
    and "ws_close_q w2 = ws_close_q w" "tcp_closing w2 = tcp_closing w" "tcp_tx w2 = tcp_tx w"
  shows "tcp_loop_run w ex w' ([TcpRead 4096 (Returns d), WsSend d] @ acts)"
  using assms unfolding tcp_loop_run_def by auto

lemma tcp_loop_runs:
  "tcp_loop_run w (fst (forward_tcp_to_ws_loop w)) (snd (forward_tcp_to_ws_loop w))
     (new_actions w (snd (forward_tcp_to_ws_loop w)))"
proof (induction w rule: forward_tcp_to_ws_loop.induct)
  case (1 w)
  obtain r w1 where rd: "reader_read 4096 w = (r, w1)"
    by (cases "reader_read 4096 w") auto
  note tr1 = reader_read_trace [OF rd]
  note fr1 = reader_read_frame [OF rd]
  have st1: "case r of
           Returns d \<Rightarrow> length d \<le> 4096 \<and> d @ tcp_stream w1 = tcp_stream w
                         \<and> (d = [] \<longrightarrow> tcp_stream w1 = [])
         | _ \<Rightarrow> tcp_stream w1 = tcp_stream w"
    using reader_read_stream [OF rd] by simp
  show ?case
  proof (cases r)
    case Never
    then have "forward_tcp_to_ws_loop w = (Stuck, w1)"
      by (subst forward_tcp_to_ws_loop.simps) (simp add: rd)
    with Never tr1 fr1 st1 show ?thesis
      by (simp add: tcp_loop_run_def new_actions_def)
  next
    case (Raises e)
    then have "forward_tcp_to_ws_loop w = (Exc e, w1)"
      by (subst forward_tcp_to_ws_loop.simps) (simp add: rd)
    with Raises tr1 fr1 st1 show ?thesis
      by (simp add: tcp_loop_run_def new_actions_def)
  next
    case (Returns d)
    show ?thesis
    proof (cases "d = []")
      case True
      with Returns have "forward_tcp_to_ws_loop w = (Break, w1)"
        by (subst forward_tcp_to_ws_loop.simps) (simp add: rd)
      with True Returns tr1 fr1 st1 show ?thesis
        by (auto simp: tcp_loop_run_def new_actions_def)
    next
      case False
      obtain s w2 where sd: "send_bytes d w1 = (s, w2)"
        by (cases "send_bytes d w1") auto
      note tr2 = send_bytes_trace [OF sd]
      note fr2 = send_bytes_frame [OF sd]
      show ?thesis
      proof (cases s)
        case Never
        with Returns False have "forward_tcp_to_ws_loop w = (Stuck, w2)"
          by (subst forward_tcp_to_ws_loop.simps) (simp add: rd sd)
        with Returns False tr1 fr1 st1 tr2 fr2 show ?thesis
          by (simp add: tcp_loop_run_def new_actions_def)
      next
        case (Raises e)
        with Returns False have "forward_tcp_to_ws_loop w = (Exc e, w2)"
          by (subst forward_tcp_to_ws_loop.simps) (simp add: rd sd)
        with Returns False tr1 fr1 st1 tr2 fr2 show ?thesis
          by (simp add: tcp_loop_run_def new_actions_def)
      next
        case sent: (Returns u)
        with Returns False have lp: "forward_tcp_to_ws_loop w = forward_tcp_to_ws_loop w2"
          by (subst forward_tcp_to_ws_loop.simps) (simp add: rd sd)
        let ?w' = "snd (forward_tcp_to_ws_loop w2)"
        have ih: "tcp_loop_run w2 (fst (forward_tcp_to_ws_loop w2)) ?w' (new_actions w2 ?w')"
          using "1.IH" [OF rd [symmetric] Returns False sd [symmetric] sent] .
        have t2: "trace w2 = trace w @ [TcpRead 4096 (Returns d), WsSend d]"
          using tr1 tr2 Returns by simp
        have len: "length d \<le> 4096" and cons: "d @ tcp_stream w2 = tcp_stream w"
          using st1 Returns fr2 by auto
        have frame: "ws_close_q w2 = ws_close_q w" "tcp_closing w2 = tcp_closing w"
            "tcp_tx w2 = tcp_tx w"
          using fr1 fr2 by auto
        have "tcp_loop_run w (fst (forward_tcp_to_ws_loop w2)) ?w'
                ([TcpRead 4096 (Returns d), WsSend d] @ new_actions w2 ?w')"
          using tcp_loop_run_step [OF ih t2 False len cons frame] .
        moreover have "new_actions w ?w' =
            [TcpRead 4096 (Returns d), WsSend d] @ new_actions w2 ?w'"
        proof -
          have "trace ?w' = trace w2 @ new_actions w2 ?w'"
            using ih by (simp add: tcp_loop_run_def)
          then have "trace ?w' =
              trace w @ [TcpRead 4096 (Returns d), WsSend d] @ new_actions w2 ?w'"
            using t2 by simp
          then show ?thesis
            unfolding new_actions_def [of w] by simp
        qed
        ultimately show ?thesis using lp by simp
      qed
    qed
  qed
qed

text \<open>
  The \<open>try\<close> statement after the loop: the calls of the handler and of the
  \<open>finally\<close> clause, and the result.
\<close>

lemma tcp_pump_after_loop:
  assumes "forward_tcp_to_ws_loop w = (ex, wl)" "ex \<noteq> Stuck"
  shows "new_actions w (snd (forward_tcp_to_ws w)) =
           new_actions w wl
           @ (case ex of
                Exc e \<Rightarrow> if is_Exception e then [Print (ErrorForwardingTcpToWs e)] else []
              | _ \<Rightarrow> [])
           @ [WsClose None]"
    and "tcp_stream (snd (forward_tcp_to_ws w)) = tcp_stream wl"
    and "fst (forward_tcp_to_ws w) =
           (case fst (pop (ws_close_q w)) of
              Never \<Rightarrow> Pending
            | Raises e' \<Rightarrow> if is_Exception e' then
                  (case ex of Exc e \<Rightarrow> if is_Exception e then Returned () else Raised e
                   | _ \<Rightarrow> Returned ())
                else Raised e'
            | Returns u \<Rightarrow>
                (case ex of Exc e \<Rightarrow> if is_Exception e then Returned () else Raised e
                 | _ \<Rightarrow> Returned ()))"
proof -
  have run: "tcp_loop_run w ex wl (new_actions w wl)"
    using tcp_loop_runs [of w] assms(1) by simp
  then have tr: "trace wl = trace w @ new_actions w wl" and cq: "ws_close_q wl = ws_close_q w"
    by (simp_all add: tcp_loop_run_def)
  obtain c q where pq: "pop (ws_close_q w) = (c, q)"
    by (cases "pop (ws_close_q w)") auto
  show "new_actions w (snd (forward_tcp_to_ws w)) =
           new_actions w wl
           @ (case ex of
                Exc e \<Rightarrow> if is_Exception e then [Print (ErrorForwardingTcpToWs e)] else []
              | _ \<Rightarrow> [])
           @ [WsClose None]"
    using assms tr cq pq unfolding new_actions_def [of w "snd (forward_tcp_to_ws w)"]
    by (cases ex; cases c)
       (auto simp: forward_tcp_to_ws_def ws_close_def py_print_def emit_def)
  show "tcp_stream (snd (forward_tcp_to_ws w)) = tcp_stream wl"
    using assms cq pq
    by (cases ex; cases c)
       (auto simp: forward_tcp_to_ws_def ws_close_def py_print_def emit_def tcp_stream_def)
  show "fst (forward_tcp_to_ws w) =
           (case fst (pop (ws_close_q w)) of
              Never \<Rightarrow> Pending
            | Raises e' \<Rightarrow> if is_Exception e' then
                  (case ex of Exc e \<Rightarrow> if is_Exception e then Returned () else Raised e
                   | _ \<Rightarrow> Returned ())
                else Raised e'
            | Returns u \<Rightarrow>
                (case ex of Exc e \<Rightarrow> if is_Exception e then Returned () else Raised e
                 | _ \<Rightarrow> Returned ()))"
    using assms cq pq
    by (cases ex; cases c)
       (auto simp: forward_tcp_to_ws_def ws_close_def py_print_def emit_def)
qed

lemma tcp_pump_stuck:
  assumes "forward_tcp_to_ws_loop w = (Stuck, wl)"
  shows "forward_tcp_to_ws w = (Pending, wl)"
  using assms by (simp add: forward_tcp_to_ws_def)

lemma sent_messages_append: "sent_messages (xs @ ys) = sent_messages xs @ sent_messages ys"
  by (induction xs rule: sent_messages.induct) auto

lemma chunks_read_append: "chunks_read (xs @ ys) = chunks_read xs @ chunks_read ys"
  by (induction xs rule: chunks_read.induct) auto

text \<open>The invariant of the loop holds of the calls of the whole pump.\<close>

lemma tcp_acts_read:
  "list_all tcp_act_ok acts \<Longrightarrow> TcpRead n r \<in> set acts \<Longrightarrow>
     n = 4096 \<and> (\<forall>d. r = Returns d \<longrightarrow> length d \<le> 4096)"
  by (induction acts) (auto split: awaited.splits)

lemma tcp_acts_send: "list_all tcp_act_ok acts \<Longrightarrow> WsSend [] \<notin> set acts"
  by (induction acts) auto

lemma tcp_acts_close: "list_all tcp_act_ok acts \<Longrightarrow> WsClose c \<notin> set acts"
  by (induction acts) auto

lemma tcp_acts_sent: "list_all tcp_act_ok acts \<Longrightarrow> [] \<notin> set (sent_messages acts)"
  by (induction acts rule: sent_messages.induct) auto

lemma tcp_pump_run:
  "(\<forall>n r. TcpRead n r \<in> set (tcp_to_ws_actions w) \<longrightarrow>
        n = 4096 \<and> (\<forall>d. r = Returns d \<longrightarrow> length d \<le> 4096))
   \<and> [] \<notin> set (sent_messages (tcp_to_ws_actions w))
   \<and> WsSend [] \<notin> set (tcp_to_ws_actions w)
   \<and> chunks_read (tcp_to_ws_actions w) = sent_messages (tcp_to_ws_actions w)
   \<and> concat (sent_messages (tcp_to_ws_actions w)) @ tcp_stream (snd (forward_tcp_to_ws w)) =
       tcp_stream w
   \<and> (TcpRead 4096 (Returns []) \<in> set (tcp_to_ws_actions w) \<longleftrightarrow>
        fst (forward_tcp_to_ws_loop w) = Break)
   \<and> (fst (forward_tcp_to_ws_loop w) = Break \<longrightarrow>
        concat (sent_messages (tcp_to_ws_actions w)) = tcp_stream w
        \<and> (\<exists>pre. tcp_to_ws_actions w = pre @ [TcpRead 4096 (Returns []), WsClose None]))"
proof -
  obtain ex wl where lp: "forward_tcp_to_ws_loop w = (ex, wl)"
    by (cases "forward_tcp_to_ws_loop w") auto
  let ?L = "new_actions w wl"
  have run: "tcp_loop_run w ex wl ?L"
    using tcp_loop_runs [of w] lp by simp
  then have ok: "list_all tcp_act_ok ?L"
    and cs: "chunks_read ?L = sent_messages ?L"
    and cons: "concat (sent_messages ?L) @ tcp_stream wl = tcp_stream w"
    and brk: "ex = Break \<longleftrightarrow> TcpRead 4096 (Returns []) \<in> set ?L"
    and brk_st: "ex = Break \<Longrightarrow> tcp_stream wl = []"
    and brk_last: "ex = Break \<Longrightarrow> ?L \<noteq> [] \<and> last ?L = TcpRead 4096 (Returns [])"
    by (simp_all add: tcp_loop_run_def)
  let ?pr = "case ex of
              Exc e \<Rightarrow> if is_Exception e then [Print (ErrorForwardingTcpToWs e)] else []
            | _ \<Rightarrow> []"
  have pr: "?pr = [] \<or> (\<exists>e. ?pr = [Print (ErrorForwardingTcpToWs e)])"
    by (cases ex) auto
  obtain fin where acts: "tcp_to_ws_actions w = ?L @ fin"
    and st: "tcp_stream (snd (forward_tcp_to_ws w)) = tcp_stream wl"
    and fin: "fin = [] \<or> fin = ?pr @ [WsClose None]"
    and fin_brk: "ex = Break \<Longrightarrow> fin = [WsClose None]"
  proof (cases "ex = Stuck")
    case True
    with lp have "tcp_to_ws_actions w = ?L @ []" "tcp_stream (snd (forward_tcp_to_ws w)) = tcp_stream wl"
      by (simp_all add: tcp_to_ws_actions_def tcp_pump_stuck)
    with True that show ?thesis by blast
  next
    case False
    have "tcp_to_ws_actions w = ?L @ (?pr @ [WsClose None])"
      and "tcp_stream (snd (forward_tcp_to_ws w)) = tcp_stream wl"
      using tcp_pump_after_loop(1,2) [OF lp False] by (simp_all add: tcp_to_ws_actions_def)
    moreover have "ex = Break \<Longrightarrow> ?pr @ [WsClose None] = [WsClose None]" by simp
    ultimately show ?thesis using that by blast
  qed
  from fin pr have fin_sent: "sent_messages fin = []" and fin_chunks: "chunks_read fin = []"
    and fin_read: "\<And>n r. TcpRead n r \<notin> set fin" and fin_send: "\<And>d. WsSend d \<notin> set fin"
    by auto
  have c1: "\<forall>n r. TcpRead n r \<in> set (tcp_to_ws_actions w) \<longrightarrow>
        n = 4096 \<and> (\<forall>d. r = Returns d \<longrightarrow> length d \<le> 4096)"
    using tcp_acts_read [OF ok] fin_read unfolding acts by auto
  have c2: "[] \<notin> set (sent_messages (tcp_to_ws_actions w))"
    using tcp_acts_sent [OF ok] unfolding acts by (simp add: sent_messages_append fin_sent)
  have c3: "WsSend [] \<notin> set (tcp_to_ws_actions w)"
    using tcp_acts_send [OF ok] fin_send unfolding acts by simp
  have c4: "chunks_read (tcp_to_ws_actions w) = sent_messages (tcp_to_ws_actions w)"
    unfolding acts by (simp add: sent_messages_append chunks_read_append fin_sent fin_chunks cs)
  have c5: "concat (sent_messages (tcp_to_ws_actions w)) @ tcp_stream (snd (forward_tcp_to_ws w)) =
       tcp_stream w"
    unfolding acts st using cons by (simp add: sent_messages_append fin_sent)
  have c6: "TcpRead 4096 (Returns []) \<in> set (tcp_to_ws_actions w) \<longleftrightarrow>
        fst (forward_tcp_to_ws_loop w) = Break"
    unfolding acts using brk fin_read lp by simp
  have c7: "concat (sent_messages (tcp_to_ws_actions w)) = tcp_stream w"
    if "fst (forward_tcp_to_ws_loop w) = Break"
    using that c5 st brk_st lp by simp
  have c8: "\<exists>pre. tcp_to_ws_actions w = pre @ [TcpRead 4096 (Returns []), WsClose None]"
    if "fst (forward_tcp_to_ws_loop w) = Break"
  proof -
    from that lp have b: "ex = Break" by simp
    with brk_last have "?L = butlast ?L @ [TcpRead 4096 (Returns [])]"
      by (metis append_butlast_last_id)
    then have "?L @ fin = butlast ?L @ [TcpRead 4096 (Returns []), WsClose None]"
      using fin_brk [OF b] by simp
    then show ?thesis unfolding acts by blast
  qed
  from c1 c2 c3 c4 c5 c6 c7 c8 show ?thesis by blast
qed



text \<open>
  Claim C10. In every run of the pump from TCP, no message handed to \<open>send_bytes\<close> is
  empty: the messages are the non-empty chunks read, and a read that returns the empty
  bytes is followed by no send.
\<close>

theorem tcp_to_ws_never_sends_empty:
  "WsSend [] \<notin> set (tcp_to_ws_actions w)
   \<and> [] \<notin> set (sent_messages (tcp_to_ws_actions w))
   \<and> sent_messages (tcp_to_ws_actions w) = chunks_read (tcp_to_ws_actions w)"
  using tcp_pump_run [of w] by simp

text \<open>
  Claim C9. Whenever the loop of the pump from TCP is left, by the end of the stream, by
  an error of a read or of a send, or by a cancellation, the last call of the pump is
  \<open>websocket.close()\<close>, made once. When that close raises an \<open>Exception\<close>, the pump
  ends as it does when the close returns: it returns, or it raises what has left the
  loop when that is not an \<open>Exception\<close>; it never raises the exception of the close.
\<close>

theorem tcp_to_ws_closes_websocket:
  assumes "fst (forward_tcp_to_ws_loop w) \<noteq> Stuck"
  shows "(\<exists>pre. tcp_to_ws_actions w = pre @ [WsClose None] \<and> (\<forall>c. WsClose c \<notin> set pre))
     \<and> (\<forall>c q. ws_close_q w = c # q \<and> (c = Returns () \<or> (\<exists>e. c = Raises e \<and> is_Exception e)) \<longrightarrow>
          fst (forward_tcp_to_ws w) =
            (case fst (forward_tcp_to_ws_loop w) of
               Exc x \<Rightarrow> if is_Exception x then Returned () else Raised x
             | _ \<Rightarrow> Returned ()))
     \<and> (\<forall>e q. ws_close_q w = Raises e # q \<and> is_Exception e \<longrightarrow>
          fst (forward_tcp_to_ws w) \<noteq> Raised e)"
proof -
  obtain ex wl where lp: "forward_tcp_to_ws_loop w = (ex, wl)"
    by (cases "forward_tcp_to_ws_loop w") auto
  with assms have ns: "ex \<noteq> Stuck" by simp
  let ?L = "new_actions w wl"
  let ?pr = "case ex of
              Exc e \<Rightarrow> if is_Exception e then [Print (ErrorForwardingTcpToWs e)] else []
            | _ \<Rightarrow> []"
  have ok: "list_all tcp_act_ok ?L"
    using tcp_loop_runs [of w] lp by (simp add: tcp_loop_run_def)
  have n1: "WsClose c \<notin> set ?L" for c
    using tcp_acts_close [OF ok] .
  have n2: "WsClose c \<notin> set ?pr" for c
    by (cases ex) auto
  have eq: "tcp_to_ws_actions w = (?L @ ?pr) @ [WsClose None]"
    using tcp_pump_after_loop(1) [OF lp ns] by (simp add: tcp_to_ws_actions_def)
  have "\<forall>c. WsClose c \<notin> set (?L @ ?pr)"
    using n1 n2 by simp
  with eq have a: "\<exists>pre. tcp_to_ws_actions w = pre @ [WsClose None] \<and> (\<forall>c. WsClose c \<notin> set pre)"
    by blast
  note res = tcp_pump_after_loop(3) [OF lp ns]
  have b: "fst (forward_tcp_to_ws w) =
            (case fst (forward_tcp_to_ws_loop w) of
               Exc x \<Rightarrow> if is_Exception x then Returned () else Raised x
             | _ \<Rightarrow> Returned ())"
    if "ws_close_q w = c # q" "c = Returns () \<or> (\<exists>e. c = Raises e \<and> is_Exception e)" for c q
    using that res lp by (auto split: loop_exit.splits)
  have c: "fst (forward_tcp_to_ws w) \<noteq> Raised e"
    if "ws_close_q w = Raises e # q" "is_Exception e" for e q
    using that res by (auto split: loop_exit.splits)
  from a b c show ?thesis by blast
qed

text \<open>An example: the stream is at its end and the WebSocket is closed already.\<close>

theorem tcp_to_ws_closes_websocket_witness:
  "fst (forward_tcp_to_ws_loop
          (idle_world\<lparr>tcp_rx_q := [Eof], ws_close_q := [Raises OtherException]\<rparr>)) \<noteq> Stuck
   \<and> tcp_to_ws_actions (idle_world\<lparr>tcp_rx_q := [Eof], ws_close_q := [Raises OtherException]\<rparr>) =
       [TcpRead 4096 (Returns []), WsClose None]
   \<and> fst (forward_tcp_to_ws
          (idle_world\<lparr>tcp_rx_q := [Eof], ws_close_q := [Raises OtherException]\<rparr>)) = Returned ()"
proof -
  let ?w = "idle_world\<lparr>tcp_rx_q := [Eof], ws_close_q := [Raises OtherException]\<rparr>"
  have lp: "fst (forward_tcp_to_ws_loop ?w) = Break"
    by (simp add: idle_world_def forward_tcp_to_ws_loop.simps reader_read_def emit_def)
  have acts: "tcp_to_ws_actions ?w = [TcpRead 4096 (Returns []), WsClose None]"
    by (simp add: tcp_to_ws_actions_def new_actions_def idle_world_def forward_tcp_to_ws_def
        forward_tcp_to_ws_loop.simps reader_read_def ws_close_def emit_def)
  have q: "ws_close_q ?w = Raises OtherException # []"
    by (simp add: idle_world_def)
  from lp have "fst (forward_tcp_to_ws_loop ?w) \<noteq> Stuck" by simp
  from tcp_to_ws_closes_websocket [OF this] q lp
  have "fst (forward_tcp_to_ws ?w) = Returned ()" by simp
  with lp acts show ?thesis by simp
qed

subsection \<open>Errors inside the pumps\<close>


text \<open>
  Claim C6. When the loop of a pump is left by an \<open>Exception\<close>, raised by a receive, a
  drain, a read or a send, the pump from the WebSocket returns, and the pump from TCP
  returns once the close it awaits in its \<open>finally\<close> clause is resolved by a return
  or by an \<open>Exception\<close>. In no run at all does a pump raise an \<open>Exception\<close> to the
  coordinator: what it can raise is the cancellation.
\<close>

theorem pumps_do_not_raise_errors:
  "(\<forall>e w1. forward_ws_to_tcp_loop w = (Exc e, w1) \<and> is_Exception e \<longrightarrow>
       fst (forward_ws_to_tcp w) = Returned ())
   \<and> (\<forall>e w1. forward_tcp_to_ws_loop w = (Exc e, w1) \<and> is_Exception e \<longrightarrow>
       fst (forward_tcp_to_ws w) =
         (case fst (pop (ws_close_q w)) of
            Returns u \<Rightarrow> Returned ()
          | Raises e' \<Rightarrow> if is_Exception e' then Returned () else Raised e'
          | Never \<Rightarrow> Pending))
   \<and> (\<forall>x. is_Exception x \<longrightarrow>
         fst (forward_ws_to_tcp w) \<noteq> Raised x \<and> fst (forward_tcp_to_ws w) \<noteq> Raised x)"
proof -
  have a: "fst (forward_ws_to_tcp w) = Returned ()"
    if "forward_ws_to_tcp_loop w = (Exc e, w1)" "is_Exception e" for e w1
    using that by (simp add: forward_ws_to_tcp_def)
  have b: "fst (forward_tcp_to_ws w) =
         (case fst (pop (ws_close_q w)) of
            Returns u \<Rightarrow> Returned ()
          | Raises e' \<Rightarrow> if is_Exception e' then Returned () else Raised e'
          | Never \<Rightarrow> Pending)"
    if "forward_tcp_to_ws_loop w = (Exc e, w1)" "is_Exception e" for e w1
    using tcp_pump_after_loop(3) [OF that(1)] that(2) by (simp split: awaited.splits)
  have c: "fst (forward_ws_to_tcp w) \<noteq> Raised x" if "is_Exception x" for x
  proof -
    obtain ex wl where "forward_ws_to_tcp_loop w = (ex, wl)"
      by (cases "forward_ws_to_tcp_loop w") auto
    with that show ?thesis
      by (cases ex) (auto simp: forward_ws_to_tcp_def)
  qed
  have d: "fst (forward_tcp_to_ws w) \<noteq> Raised x" if "is_Exception x" for x
  proof -
    obtain ex wl where lp: "forward_tcp_to_ws_loop w = (ex, wl)"
      by (cases "forward_tcp_to_ws_loop w") auto
    show ?thesis
    proof (cases "ex = Stuck")
      case True
      with lp show ?thesis by (simp add: tcp_pump_stuck)
    next
      case False
      from tcp_pump_after_loop(3) [OF lp False] that show ?thesis
        by (auto split: awaited.splits loop_exit.splits if_splits)
    qed
  qed
  from a b c d show ?thesis by blast
qed

text \<open>
  Examples: a receive fails with a run-time error in one pump, a send fails with a
  broken pipe in the other; both pumps return.
\<close>

theorem pumps_do_not_raise_errors_witness:
  "fst (forward_ws_to_tcp (idle_world\<lparr>ws_recv_q := [Raises OtherException]\<rparr>)) = Returned ()
   \<and> fst (forward_tcp_to_ws
            (idle_world\<lparr>tcp_rx_q := [Arrive [7]], ws_send_q := [Raises OSError],
                         ws_close_q := [Returns ()]\<rparr>)) = Returned ()
   \<and> fst (forward_ws_to_tcp idle_world) \<noteq> Raised OSError"
proof -
  let ?a = "idle_world\<lparr>ws_recv_q := [Raises OtherException]\<rparr>"
  let ?b = "idle_world\<lparr>tcp_rx_q := [Arrive [7]], ws_send_q := [Raises OSError],
                         ws_close_q := [Returns ()]\<rparr>"
  have la: "forward_ws_to_tcp_loop ?a = (Exc OtherException, snd (forward_ws_to_tcp_loop ?a))"
    by (simp add: idle_world_def forward_ws_to_tcp_loop.simps receive_bytes_def emit_def)
  have lb: "forward_tcp_to_ws_loop ?b = (Exc OSError, snd (forward_tcp_to_ws_loop ?b))"
    by (simp add: idle_world_def forward_tcp_to_ws_loop.simps reader_read_def send_bytes_def
        emit_def)
  have qb: "fst (pop (ws_close_q ?b)) = Returns ()"
    by (simp add: idle_world_def)
  have ea: "is_Exception OtherException" and eb: "is_Exception OSError" by simp_all
  from pumps_do_not_raise_errors [of ?a] la ea
  have "fst (forward_ws_to_tcp ?a) = Returned ()" by blast
  moreover from pumps_do_not_raise_errors [of ?b] lb eb
  have "fst (forward_tcp_to_ws ?b) =
         (case fst (pop (ws_close_q ?b)) of
            Returns u \<Rightarrow> Returned ()
          | Raises e' \<Rightarrow> if is_Exception e' then Returned () else Raised e'
          | Never \<Rightarrow> Pending)" by blast
  with qb have "fst (forward_tcp_to_ws ?b) = Returned ()" by simp
  moreover from pumps_do_not_raise_errors [of idle_world] eb
  have "fst (forward_ws_to_tcp idle_world) \<noteq> Raised OSError" by blast
  ultimately show ?thesis by simp
qed

subsection \<open>The close of the TCP writer\<close>





subsection \<open>The coordinator when the connection cannot be made\<close>



subsection \<open>The coordinator after the connection is made\<close>



end
